theory Spec2Isabelle
  imports Main "HOL-Library.AList"
begin

section \<open>Data model\<close>

text \<open>
  The \<open>GitCommit\<close> interface of \<open>src/webview/types.ts\<close>. Only \<open>hash\<close> and
  \<open>parents\<close> are read by the layout code; the other fields are payload.
\<close>

record GitCommit =
  hash :: string
  shortHash :: string
  message :: string
  date :: string
  author :: string
  parents :: "string list"
  refs :: "string list"

text \<open>
  A JavaScript \<open>Map<string, number>\<close> is an association list with distinct keys, in
  insertion order: \<open>set\<close> on a present key replaces the value in place and on an absent
  key appends an entry (\<open>AList.update\<close>), \<open>delete\<close> removes the entry
  (\<open>AList.delete\<close>), \<open>get\<close> is \<open>map_of\<close>, \<open>values()\<close> is \<open>map snd\<close>.
\<close>

type_synonym laneMap = "(string \<times> nat) list"

definition has :: "laneMap \<Rightarrow> string \<Rightarrow> bool" where
  "has m k = (map_of m k \<noteq> None)"

section \<open>Lane allocator (calculateLanes)\<close>

text \<open>
  The free-lane scan \<open>let newLane = 0; while (usedLanes.has(newLane)) { newLane++; }\<close>.
  \<open>usedLanes\<close> is the collection of the reserved lane numbers; only membership is
  asked of it. The loop is not structurally recursive: it ends because every lane it
  steps over lies below the largest used lane.
\<close>

function scanFreeLane :: "nat list \<Rightarrow> nat \<Rightarrow> nat" where
  "scanFreeLane usedLanes newLane =
     (if newLane \<in> set usedLanes then scanFreeLane usedLanes (Suc newLane) else newLane)"
  by pat_completeness auto
termination
proof (relation "measure (\<lambda>(usedLanes, newLane). Suc (Max (set usedLanes)) - newLane)")
  show "wf (measure (\<lambda>(usedLanes, newLane). Suc (Max (set usedLanes)) - newLane))"
    by simp
next
  fix usedLanes :: "nat list" and newLane :: nat
  assume "newLane \<in> set usedLanes"
  then have "newLane \<le> Max (set usedLanes)"
    by simp
  then show "((usedLanes, Suc newLane), (usedLanes, newLane))
      \<in> measure (\<lambda>(usedLanes, newLane). Suc (Max (set usedLanes)) - newLane)"
    by simp
qed

declare scanFreeLane.simps [simp del]

text \<open>
  The same loop with a budget on the number of \<open>usedLanes.has\<close> tests it may make:
  \<open>None\<close> when the budget is used up before a free lane is found.
\<close>

fun scanBudget :: "nat \<Rightarrow> nat list \<Rightarrow> nat \<Rightarrow> nat option" where
  "scanBudget 0 usedLanes newLane = None"
| "scanBudget (Suc b) usedLanes newLane =
     (if newLane \<in> set usedLanes then scanBudget b usedLanes (Suc newLane) else Some newLane)"

text \<open>
  The state of the forward pass: the result map, the pending reservations and the
  counter of never-used lanes.
\<close>

record LaneState =
  commitLanes :: laneMap
  reservedLanes :: laneMap
  nextLane :: nat

definition initialLanes :: LaneState where
  "initialLanes = \<lparr>commitLanes = [], reservedLanes = [], nextLane = 0\<rparr>"

text \<open>
  Lines 23-28: the commit takes its reserved lane and the reservation is deleted,
  or it takes \<open>nextLane++\<close>. The result is (assignedLane, reservedLanes, nextLane).
\<close>

definition claimLane :: "string \<Rightarrow> laneMap \<Rightarrow> nat \<Rightarrow> nat \<times> laneMap \<times> nat" where
  "claimLane h reserved next =
     (case map_of reserved h of
        Some l \<Rightarrow> (l, AList.delete h reserved, next)
      | None \<Rightarrow> (next, reserved, Suc next))"

text \<open>Lines 34-36: the first parent inherits the lane unless it is reserved already.\<close>

definition reserveFirst :: "string \<Rightarrow> nat \<Rightarrow> laneMap \<Rightarrow> laneMap" where
  "reserveFirst firstParent assignedLane reserved =
     (if \<not> has reserved firstParent then AList.update firstParent assignedLane reserved
      else reserved)"

text \<open>Lines 38-45: the body of the loop over the parents of index 1 and above.\<close>

definition reserveExtra :: "string \<Rightarrow> laneMap \<times> nat \<Rightarrow> laneMap \<times> nat" where
  "reserveExtra parent st =
     (case st of (reserved, next) \<Rightarrow>
        if \<not> has reserved parent then
          (let usedLanes = map snd reserved;
               newLane = scanFreeLane usedLanes 0
           in (AList.update parent newLane reserved, max next (newLane + 1)))
        else (reserved, next))"

text \<open>Lines 32-47: all the reservations a commit makes for its parents.\<close>

definition reserveParents :: "nat \<Rightarrow> string list \<Rightarrow> laneMap \<times> nat \<Rightarrow> laneMap \<times> nat" where
  "reserveParents assignedLane ps st =
     (case ps of
        [] \<Rightarrow> st
      | firstParent # rest \<Rightarrow>
          fold reserveExtra rest (reserveFirst firstParent assignedLane (fst st), snd st))"

text \<open>Lines 20-48: one iteration of the loop over the commits.\<close>

definition laneStep :: "GitCommit \<Rightarrow> LaneState \<Rightarrow> LaneState" where
  "laneStep commit s =
     (case claimLane (hash commit) (reservedLanes s) (nextLane s) of
        (assignedLane, reserved1, next1) \<Rightarrow>
          (case reserveParents assignedLane (parents commit) (reserved1, next1) of
             (reserved2, next2) \<Rightarrow>
               \<lparr>commitLanes = AList.update (hash commit) assignedLane (commitLanes s),
                reservedLanes = reserved2,
                nextLane = next2\<rparr>))"

definition lanesFrom :: "LaneState \<Rightarrow> GitCommit list \<Rightarrow> LaneState" where
  "lanesFrom s commits = fold laneStep commits s"

definition calculateLanes :: "GitCommit list \<Rightarrow> laneMap" where
  "calculateLanes commits = commitLanes (lanesFrom initialLanes commits)"

section \<open>Edge routing and row rendering (GraphCanvas, drawGraph)\<close>

text \<open>
  A failed property read on \<open>undefined\<close> (an array read out of range followed by a
  field access) raises a TypeError; it is the only error the modelled code can raise.
\<close>

datatype error = TypeError

definition LANE_WIDTH :: nat where
  "LANE_WIDTH = 18"

text \<open>
  \<open>commits.findIndex(c => c.hash === h)\<close>: the first row whose hash is \<open>h\<close>, or -1.
\<close>

fun findIndexFrom :: "int \<Rightarrow> GitCommit list \<Rightarrow> string \<Rightarrow> int" where
  "findIndexFrom i [] h = -1"
| "findIndexFrom i (c # cs) h = (if hash c = h then i else findIndexFrom (i + 1) cs h)"

definition findIndex :: "GitCommit list \<Rightarrow> string \<Rightarrow> int" where
  "findIndex commits h = findIndexFrom 0 commits h"

text \<open>
  What a row paints, in painting order. A segment is recorded with the lanes that fix
  its x-coordinates (\<open>px(lane * LANE_WIDTH + 10)\<close>) and its colour
  (\<open>COLORS[lane % COLORS.length]\<close>); its y-coordinates are fixed by its kind.
  The lane of the row itself is \<open>commitLanes.get(commit.hash)\<close>, which is
  \<open>undefined\<close> (\<open>None\<close>) for a hash the map does not hold.
  \<^item> \<open>Passthrough pl\<close>: the full-height line in lane \<open>pl\<close>;
  \<^item> \<open>IncomingHalf lane\<close>, \<open>OutgoingHalf lane\<close>: the upper and the lower half of
    the row's own lane line;
  \<^item> \<open>IncomingCurve childLane lane\<close>: the curve from the child's lane at the top of the
    row to the row's lane at its middle;
  \<^item> \<open>OutgoingCurve lane parentLane\<close>: the curve from the row's lane at its middle to
    the parent's lane at the bottom;
  \<^item> \<open>Dot lane isHead\<close>: the commit marker, a ring when \<open>isHead\<close>.
\<close>

datatype segment =
    Passthrough nat
  | IncomingHalf "nat option"
  | OutgoingHalf "nat option"
  | IncomingCurve "nat option" "nat option"
  | OutgoingCurve "nat option" nat
  | Dot "nat option" bool

text \<open>Part 1, the callback of \<open>commits[i].parents.forEach\<close>.\<close>

definition passthroughEdge ::
  "GitCommit list \<Rightarrow> laneMap \<Rightarrow> nat \<Rightarrow> nat option \<Rightarrow> string \<Rightarrow> segment list" where
  "passthroughEdge commits lanes index lane parent =
     (let parentIndex = findIndex commits parent in
      if parentIndex > int index then
        (case map_of lanes parent of
           None \<Rightarrow> []
         | Some pl \<Rightarrow> if Some pl \<noteq> lane then [Passthrough pl] else [])
      else [])"

definition passthroughs ::
  "GitCommit list \<Rightarrow> laneMap \<Rightarrow> nat \<Rightarrow> nat option \<Rightarrow> segment list" where
  "passthroughs commits lanes index lane =
     concat (map (\<lambda>i. concat (map (passthroughEdge commits lanes index lane)
                                    (parents (commits ! i))))
                 [0..<index])"

text \<open>Part 2, the two tests that decide the halves of the row's own lane line.\<close>

definition hasIncoming :: "GitCommit list \<Rightarrow> nat \<Rightarrow> GitCommit \<Rightarrow> bool" where
  "hasIncoming commits index commit =
     (index > 0 \<and> list_ex (\<lambda>c. hash commit \<in> set (parents c)) (take index commits))"

definition hasOutgoing :: "GitCommit list \<Rightarrow> nat \<Rightarrow> GitCommit \<Rightarrow> bool" where
  "hasOutgoing commits index commit =
     list_ex (\<lambda>p. findIndex commits p > int index) (parents commit)"

definition ownLane :: "GitCommit list \<Rightarrow> nat \<Rightarrow> GitCommit \<Rightarrow> nat option \<Rightarrow> segment list" where
  "ownLane commits index commit lane =
     (if hasIncoming commits index commit then [IncomingHalf lane] else []) @
     (if hasOutgoing commits index commit then [OutgoingHalf lane] else [])"

text \<open>Part 3, first loop: the curves from the children in other lanes.\<close>

definition incomingCurves ::
  "GitCommit list \<Rightarrow> laneMap \<Rightarrow> nat \<Rightarrow> GitCommit \<Rightarrow> nat option \<Rightarrow> segment list" where
  "incomingCurves commits lanes index commit lane =
     concat (map (\<lambda>i. let child = commits ! i in
                    if hash commit \<in> set (parents child) then
                      (let childLane = map_of lanes (hash child) in
                       if childLane \<noteq> lane then [IncomingCurve childLane lane] else [])
                    else [])
                 [0..<index])"

text \<open>Part 3, the callback of \<open>commit.parents.forEach\<close>.\<close>

definition outgoingEdge ::
  "GitCommit list \<Rightarrow> laneMap \<Rightarrow> nat \<Rightarrow> nat option \<Rightarrow> string \<Rightarrow> segment list" where
  "outgoingEdge commits lanes index lane parent =
     (let parentIndex = findIndex commits parent in
      if parentIndex > int index then
        (case map_of lanes parent of
           None \<Rightarrow> []
         | Some parentLane \<Rightarrow>
             if Some parentLane \<noteq> lane then [OutgoingCurve lane parentLane] else [])
      else [])"

definition outgoingCurves ::
  "GitCommit list \<Rightarrow> laneMap \<Rightarrow> nat \<Rightarrow> GitCommit \<Rightarrow> nat option \<Rightarrow> segment list" where
  "outgoingCurves commits lanes index commit lane =
     concat (map (outgoingEdge commits lanes index lane) (parents commit))"

text \<open>
  Everything one row paints (parts 1 to 4). The code is the same in the effect of
  \<open>GraphCanvas\<close> and in the body of the loop over the canvases in \<open>drawGraph\<close>.
\<close>

definition rowSegments ::
  "GitCommit list \<Rightarrow> laneMap \<Rightarrow> string option \<Rightarrow> GitCommit \<Rightarrow> nat \<Rightarrow> segment list" where
  "rowSegments commits lanes headCommitHash commit index =
     (let lane = map_of lanes (hash commit) in
      passthroughs commits lanes index lane @
      ownLane commits index commit lane @
      incomingCurves commits lanes index commit lane @
      outgoingCurves commits lanes index commit lane @
      [Dot lane (Some (hash commit) = headCommitHash)])"

text \<open>
  One drawing surface: the row it belongs to, its width in CSS pixels (\<open>None\<close> for
  the width \<open>-Infinity\<close>) and what is painted on it. (The backing store is
  \<open>canvasWidth * dpr\<close> wide, a floating-point product that is not modelled.)
\<close>

record surface =
  rowIndex :: nat
  styleWidth :: "nat option"
  painted :: "segment list"

text \<open>
  The effect of the \<open>GraphCanvas\<close> component for the row \<open>index\<close>, run on a
  mounted canvas (on a null ref the effect returns at once and paints nothing). The
  loops over \<open>i < index\<close> read \<open>commits[i].parents\<close>, which raises once \<open>i\<close>
  reaches the length of the list.
\<close>

definition GraphCanvas ::
  "GitCommit \<Rightarrow> nat \<Rightarrow> GitCommit list \<Rightarrow> laneMap \<Rightarrow> nat \<Rightarrow> string option
     \<Rightarrow> error + surface" where
  "GraphCanvas commit index commits lanes canvasWidth headCommitHash =
     (if index > length commits then Inl TypeError
      else Inr \<lparr>rowIndex = index, styleWidth = Some canvasWidth,
                painted = rowSegments commits lanes headCommitHash commit index\<rparr>)"

text \<open>
  \<open>drawGraph\<close> of the page script. \<open>Math.max(...values)\<close> of no values is
  \<open>-Infinity\<close>, and so is the width then: \<open>None\<close>.
\<close>

definition canvasWidth :: "laneMap \<Rightarrow> nat option" where
  "canvasWidth lanes =
     (case map snd lanes of
        [] \<Rightarrow> None
      | v # vs \<Rightarrow> (let maxLane = fold max vs v + 1 in Some (maxLane * LANE_WIDTH + 12)))"

definition isHeadRef :: "string \<Rightarrow> bool" where
  "isHeadRef r = (take 8 r = ''HEAD -> '' \<or> r = ''HEAD'')"

definition headCommitHash :: "GitCommit list \<Rightarrow> string option" where
  "headCommitHash commits =
     (case find (\<lambda>c. list_ex isHeadRef (refs c)) commits of
        Some c \<Rightarrow> Some (hash c)
      | None \<Rightarrow> (case commits of [] \<Rightarrow> None | c # _ \<Rightarrow> Some (hash c)))"

text \<open>
  The body of \<open>canvases.forEach\<close> for the canvas whose \<open>data-index\<close> is \<open>index\<close>:
  \<open>commits[index]\<close> out of range is \<open>undefined\<close> and reading its hash raises.
\<close>

definition drawCanvas ::
  "GitCommit list \<Rightarrow> laneMap \<Rightarrow> nat option \<Rightarrow> nat \<Rightarrow> error + surface" where
  "drawCanvas commits lanes width index =
     (if index \<ge> length commits then Inl TypeError
      else Inr \<lparr>rowIndex = index,
                styleWidth = width,
                painted = rowSegments commits lanes (headCommitHash commits)
                            (commits ! index) index\<rparr>)"

fun drawCanvases ::
  "GitCommit list \<Rightarrow> laneMap \<Rightarrow> nat option \<Rightarrow> nat list \<Rightarrow> error + surface list" where
  "drawCanvases commits lanes width [] = Inr []"
| "drawCanvases commits lanes width (index # rest) =
     (case drawCanvas commits lanes width index of
        Inl e \<Rightarrow> Inl e
      | Inr s \<Rightarrow>
          (case drawCanvases commits lanes width rest of
             Inl e \<Rightarrow> Inl e
           | Inr ss \<Rightarrow> Inr (s # ss)))"

text \<open>
  \<open>canvases\<close> are the \<open>data-index\<close> attributes of the canvases of the page, in
  document order.
\<close>

definition drawGraph :: "GitCommit list \<Rightarrow> nat list \<Rightarrow> error + surface list" where
  "drawGraph commits canvases =
     (let lanes = calculateLanes commits in
      drawCanvases commits lanes (canvasWidth lanes) canvases)"

section \<open>Selection and range actions\<close>

text \<open>
  \<open>areCommitsConsecutive\<close>. The indices are row numbers. A row number outside the
  list reads \<open>undefined\<close>; \<open>newer.parents\<close> raises on it at once, \<open>older.hash\<close>
  only when the test of the length has not already answered.
\<close>

fun areCommitsConsecutive :: "GitCommit list \<Rightarrow> nat list \<Rightarrow> error + bool" where
  "areCommitsConsecutive commits (i # j # rest) =
     (if i \<ge> length commits then Inl TypeError
      else if length (parents (commits ! i)) \<noteq> 1 then Inr False
      else if j \<ge> length commits then Inl TypeError
      else if hash (commits ! j) \<notin> set (parents (commits ! i)) then Inr False
      else areCommitsConsecutive commits (j # rest))"
| "areCommitsConsecutive commits sortedIndices = Inr True"

text \<open>The message posted to the extension by a click in the range menu.\<close>

record rangeEvent =
  command :: string
  hashes :: "string list"
  parentHash :: "string option"

text \<open>\<open>sortedIndices.map(i => commits[i].hash)\<close>.\<close>

fun hashesAt :: "GitCommit list \<Rightarrow> nat list \<Rightarrow> error + string list" where
  "hashesAt commits [] = Inr []"
| "hashesAt commits (i # rest) =
     (if i \<ge> length commits then Inl TypeError
      else (case hashesAt commits rest of
              Inl e \<Rightarrow> Inl e
            | Inr hs \<Rightarrow> Inr (hash (commits ! i) # hs)))"

text \<open>
  The click handler of the range menu. \<open>item\<close> is the action of the menu item that
  was hit, if one was; \<open>selectedIndices\<close> holds the members of the selection set in
  insertion order. \<open>parents[0]\<close> of a commit without parents is \<open>undefined\<close>.
\<close>

definition rangeMenuClick ::
  "GitCommit list \<Rightarrow> nat list \<Rightarrow> string option \<Rightarrow> error + rangeEvent option" where
  "rangeMenuClick commits selectedIndices item =
     (case item of
        None \<Rightarrow> Inr None
      | Some action \<Rightarrow>
          (let sortedIndices = sort selectedIndices in
           case hashesAt commits sortedIndices of
             Inl e \<Rightarrow> Inl e
           | Inr hs \<Rightarrow>
               if sortedIndices = [] then Inl TypeError
               else (let oldestIndex = last sortedIndices in
                     if oldestIndex \<ge> length commits then Inl TypeError
                     else Inr (Some \<lparr>command = action, hashes = hs,
                                      parentHash = (case parents (commits ! oldestIndex) of
                                                      [] \<Rightarrow> None
                                                    | p # _ \<Rightarrow> Some p)\<rparr>))))"

section \<open>Invariant of the forward pass and example inputs\<close>

text \<open>
  The reservation map holds each hash once and each lane once, and every reserved lane
  lies below the counter.
\<close>

definition reservedOk :: "laneMap \<Rightarrow> nat \<Rightarrow> bool" where
  "reservedOk r n \<longleftrightarrow>
     distinct (map fst r) \<and> distinct (map snd r) \<and> (\<forall>v \<in> snd ` set r. v < n)"

text \<open>The invariant of the loop over the commits.\<close>

definition laneInv :: "LaneState \<Rightarrow> bool" where
  "laneInv s \<longleftrightarrow>
     reservedOk (reservedLanes s) (nextLane s) \<and> (\<forall>v \<in> snd ` set (commitLanes s). v < nextLane s)"

text \<open>A commit with the given hash and parents and an empty payload.\<close>

definition mkCommit :: "string \<Rightarrow> string list \<Rightarrow> GitCommit" where
  "mkCommit h ps = \<lparr>hash = h, shortHash = take 7 h, message = [], date = [], author = [],
     parents = ps, refs = []\<rparr>"

text \<open>The merge history of the end-to-end scenario.\<close>

definition scenario :: "GitCommit list" where
  "scenario = [mkCommit ''C1'' [''C2''], mkCommit ''C2'' [''C3'', ''C4''],
     mkCommit ''C3'' [''C5''], mkCommit ''C4'' [''C5''], mkCommit ''C5'' []]"

text \<open>A chain of three commits, the oldest a root.\<close>

definition chain3 :: "GitCommit list" where
  "chain3 = [mkCommit ''a'' [''b''], mkCommit ''b'' [''c''], mkCommit ''c'' []]"

text \<open>
  The parent chain of C5: every commit has the next one as its only parent and the
  last one has none.
\<close>

fun isChain :: "GitCommit list \<Rightarrow> bool" where
  "isChain [] = True"
| "isChain [c] = (parents c = [])"
| "isChain (c # d # cs) = (parents c = [hash d] \<and> isChain (d # cs))"

text \<open>
  The states the forward pass goes through on a parent chain: every lane assigned so far
  is 0, and either nothing has been processed yet or the next commit holds the only
  reservation, for lane 0.
\<close>

definition chainState :: "LaneState \<Rightarrow> GitCommit list \<Rightarrow> bool" where
  "chainState s cs \<longleftrightarrow>
     snd ` set (commitLanes s) \<subseteq> {0} \<and>
     (case cs of
        [] \<Rightarrow> True
      | c # _ \<Rightarrow> (reservedLanes s = [(hash c, 0)] \<and> nextLane s = 1)
               \<or> (reservedLanes s = [] \<and> nextLane s = 0))"

text \<open>
  The commit with every parent hash that the list does not hold removed: the edges that
  leave the visible window are cut off.
\<close>

definition eraseAbsent :: "GitCommit list \<Rightarrow> GitCommit \<Rightarrow> GitCommit" where
  "eraseAbsent commits c = c\<lparr>parents := filter (\<lambda>p. p \<in> hash ` set commits) (parents c)\<rparr>"

text \<open>A truncated history: the parents \<open>x\<close> and \<open>y\<close> are not in the list.\<close>

definition truncated :: "GitCommit list" where
  "truncated = [mkCommit ''a'' [''b'', ''x''], mkCommit ''b'' [''y'']]"

section \<open>Properties of the lane allocator\<close>

lemma scanFreeLane_used: "n \<in> set u \<Longrightarrow> scanFreeLane u n = scanFreeLane u (Suc n)"
  by (simp add: scanFreeLane.simps)

lemma scanFreeLane_free: "n \<notin> set u \<Longrightarrow> scanFreeLane u n = n"
  by (simp add: scanFreeLane.simps)

lemmas lane_defs = calculateLanes_def lanesFrom_def initialLanes_def laneStep_def
  claimLane_def reserveParents_def reserveFirst_def reserveExtra_def has_def
  scanFreeLane_used scanFreeLane_free

lemma scanFreeLane_ge: "n \<le> scanFreeLane u n"
proof (induction u n rule: scanFreeLane.induct)
  case (1 u n)
  show ?case
  proof (cases "n \<in> set u")
    case True
    with 1 show ?thesis by (simp add: scanFreeLane_used)
  next
    case False
    then show ?thesis by (simp add: scanFreeLane_free)
  qed
qed

lemma scanFreeLane_notin: "scanFreeLane u n \<notin> set u"
proof (induction u n rule: scanFreeLane.induct)
  case (1 u n)
  show ?case
  proof (cases "n \<in> set u")
    case True
    with 1 show ?thesis by (simp add: scanFreeLane_used)
  next
    case False
    then show ?thesis by (simp add: scanFreeLane_free)
  qed
qed

lemma scanFreeLane_below: "n \<le> l \<Longrightarrow> l < scanFreeLane u n \<Longrightarrow> l \<in> set u"
proof (induction u n rule: scanFreeLane.induct)
  case (1 u n)
  show ?case
  proof (cases "n \<in> set u")
    case True
    show ?thesis
    proof (cases "l = n")
      case True
      with \<open>n \<in> set u\<close> show ?thesis by simp
    next
      case False
      with 1 True show ?thesis by (simp add: scanFreeLane_used)
    qed
  next
    case False
    with 1 show ?thesis by (simp add: scanFreeLane_free)
  qed
qed

lemma scanFreeLane_le_length: "scanFreeLane u 0 \<le> length u"
proof -
  have "{0..<scanFreeLane u 0} \<subseteq> set u"
    using scanFreeLane_below [of 0 _ u] by auto
  then have "card {0..<scanFreeLane u 0} \<le> card (set u)"
    by (intro card_mono) simp_all
  also have "\<dots> \<le> length u"
    by (rule card_length)
  finally show ?thesis by simp
qed

lemma scanBudget_enough:
  "scanFreeLane u n - n < b \<Longrightarrow> scanBudget b u n = Some (scanFreeLane u n)"
proof (induction b arbitrary: n)
  case 0
  then show ?case by simp
next
  case (Suc b)
  show ?case
  proof (cases "n \<in> set u")
    case True
    then have eq: "scanFreeLane u n = scanFreeLane u (Suc n)"
      by (rule scanFreeLane_used)
    have "Suc n \<le> scanFreeLane u (Suc n)"
      by (rule scanFreeLane_ge)
    with Suc.prems eq have "scanFreeLane u (Suc n) - Suc n < b"
      by simp
    then have "scanBudget b u (Suc n) = Some (scanFreeLane u (Suc n))"
      by (rule Suc.IH)
    with True eq show ?thesis by simp
  next
    case False
    then show ?thesis by (simp add: scanFreeLane_free)
  qed
qed

text \<open>
  C7. The allocator is a total function of the commit list: its loops over the commits
  and over the parents follow the lists, and its only open-ended loop, the free-lane
  scan, ends on every reservation map, whatever commits produced it. Started at lane 0
  with a budget of one test more than there are pending reservations, the scan finds its
  free lane within the budget, and that lane is at most the number of reservations.
\<close>

theorem scanFreeLane_bounded:
  "scanBudget (Suc (length reserved)) (map snd reserved) 0
     = Some (scanFreeLane (map snd reserved) 0)
   \<and> scanFreeLane (map snd reserved) 0 \<le> length reserved"
proof -
  have le: "scanFreeLane (map snd reserved) 0 \<le> length reserved"
    using scanFreeLane_le_length [of "map snd reserved"] by simp
  then have "scanFreeLane (map snd reserved) 0 - 0 < Suc (length reserved)"
    by simp
  then have "scanBudget (Suc (length reserved)) (map snd reserved) 0
     = Some (scanFreeLane (map snd reserved) 0)"
    by (rule scanBudget_enough)
  with le show ?thesis by simp
qed

lemma update_absent: "k \<notin> fst ` set al \<Longrightarrow> AList.update k v al = al @ [(k, v)]"
  by (induction al) auto

lemma has_iff: "has m k \<longleftrightarrow> k \<in> fst ` set m"
  by (simp add: has_def map_of_eq_None_iff)

lemma reservedOk_append:
  "reservedOk r n \<Longrightarrow> k \<notin> fst ` set r \<Longrightarrow> v \<notin> snd ` set r \<Longrightarrow> v < n
     \<Longrightarrow> reservedOk (r @ [(k, v)]) n"
  by (auto simp: reservedOk_def)

lemma reservedOk_mono: "reservedOk r n \<Longrightarrow> n \<le> m \<Longrightarrow> reservedOk r m"
  by (fastforce simp: reservedOk_def)

lemma delete_filter: "AList.delete h r = filter (\<lambda>p. fst p \<noteq> h) r"
  by (induction r) auto

lemma reservedOk_delete: "reservedOk r n \<Longrightarrow> reservedOk (AList.delete h r) n"
  by (auto simp: reservedOk_def delete_filter distinct_map_filter)

lemma claimed_lane_free:
  assumes "reservedOk r n" and "map_of r h = Some l"
  shows "l \<notin> snd ` set (AList.delete h r)"
proof
  assume "l \<in> snd ` set (AList.delete h r)"
  then obtain k where k: "(k, l) \<in> set r" "k \<noteq> h"
    by (auto simp: delete_filter)
  have h: "(h, l) \<in> set r"
    using assms(2) by (rule map_of_SomeD)
  have "inj_on snd (set r)"
    using assms(1) by (simp add: reservedOk_def distinct_map)
  with k(1) h have "(k, l) = (h, l)"
    using inj_onD [of snd "set r" "(k, l)" "(h, l)"] by simp
  with k(2) show False by simp
qed

lemma claimLane_ok:
  assumes "reservedOk r n" and "claimLane h r n = (a, r', n')"
  shows "reservedOk r' n' \<and> a < n' \<and> a \<notin> snd ` set r' \<and> n \<le> n'"
proof (cases "map_of r h")
  case None
  with assms(2) have eq: "a = n" "r' = r" "n' = Suc n"
    by (simp_all add: claimLane_def)
  have "reservedOk r (Suc n)"
    using assms(1) by (rule reservedOk_mono) simp
  moreover have "n \<notin> snd ` set r"
    using assms(1) by (auto simp: reservedOk_def)
  ultimately show ?thesis using eq by simp
next
  case (Some l)
  with assms(2) have eq: "a = l" "r' = AList.delete h r" "n' = n"
    by (simp_all add: claimLane_def)
  have "(h, l) \<in> set r"
    using Some by (rule map_of_SomeD)
  then have "l < n"
    using assms(1) by (force simp: reservedOk_def)
  with eq reservedOk_delete [OF assms(1)] claimed_lane_free [OF assms(1) Some]
  show ?thesis by simp
qed

lemma reserveFirst_ok:
  assumes "reservedOk r n" and "a < n" and "a \<notin> snd ` set r"
  shows "reservedOk (reserveFirst p a r) n"
proof (cases "has r p")
  case True
  with assms(1) show ?thesis by (simp add: reserveFirst_def)
next
  case False
  then have p: "p \<notin> fst ` set r" by (simp add: has_iff)
  then have "reserveFirst p a r = r @ [(p, a)]"
    using False by (simp add: reserveFirst_def update_absent)
  with reservedOk_append [OF assms(1) p assms(3) assms(2)] show ?thesis by simp
qed

lemma reserveExtra_absent:
  assumes "\<not> has r p"
  shows "reserveExtra p (r, n)
     = (r @ [(p, scanFreeLane (map snd r) 0)], max n (Suc (scanFreeLane (map snd r) 0)))"
  using assms by (simp add: reserveExtra_def has_iff update_absent Let_def)

lemma reserveExtra_present: "has r p \<Longrightarrow> reserveExtra p (r, n) = (r, n)"
  by (simp add: reserveExtra_def)

lemma reserveExtra_ok:
  assumes "reservedOk r n" and "reserveExtra p (r, n) = (r', n')"
  shows "reservedOk r' n' \<and> n \<le> n'"
proof (cases "has r p")
  case True
  with assms show ?thesis by (simp add: reserveExtra_present)
next
  case False
  let ?l = "scanFreeLane (map snd r) 0"
  from False assms(2) have eq: "r' = r @ [(p, ?l)]" "n' = max n (Suc ?l)"
    by (simp_all add: reserveExtra_absent)
  have p: "p \<notin> fst ` set r" using False by (simp add: has_iff)
  have l: "?l \<notin> snd ` set r"
    using scanFreeLane_notin [of "map snd r" 0] by simp
  have "reservedOk r n'"
    using assms(1) by (rule reservedOk_mono) (simp add: eq)
  then have "reservedOk (r @ [(p, ?l)]) n'"
    using p l by (rule reservedOk_append) (simp add: eq)
  then show ?thesis by (simp add: eq)
qed

lemma fold_reserveExtra_ok:
  "reservedOk r n \<Longrightarrow> fold reserveExtra ps (r, n) = (r', n') \<Longrightarrow> reservedOk r' n' \<and> n \<le> n'"
proof (induction ps arbitrary: r n)
  case Nil
  then show ?case by simp
next
  case (Cons p ps)
  obtain r1 n1 where step: "reserveExtra p (r, n) = (r1, n1)"
    by (cases "reserveExtra p (r, n)")
  with Cons.prems(1) have ok1: "reservedOk r1 n1 \<and> n \<le> n1"
    by (rule reserveExtra_ok)
  from Cons.prems(2) step have "fold reserveExtra ps (r1, n1) = (r', n')"
    by simp
  with ok1 have "reservedOk r' n' \<and> n1 \<le> n'"
    using Cons.IH by blast
  with ok1 show ?case by simp
qed

lemma reserveParents_ok:
  assumes "reservedOk r n" and "a < n" and "a \<notin> snd ` set r"
    and "reserveParents a ps (r, n) = (r', n')"
  shows "reservedOk r' n' \<and> n \<le> n'"
proof (cases ps)
  case Nil
  with assms show ?thesis by (simp add: reserveParents_def)
next
  case (Cons p rest)
  have "reservedOk (reserveFirst p a r) n"
    using assms(1-3) by (rule reserveFirst_ok)
  moreover have "fold reserveExtra rest (reserveFirst p a r, n) = (r', n')"
    using assms(4) Cons by (simp add: reserveParents_def)
  ultimately show ?thesis by (rule fold_reserveExtra_ok)
qed

lemma update_values: "snd ` set (AList.update k v al) \<subseteq> insert v (snd ` set al)"
  by (induction al) auto

lemma laneStep_inv:
  assumes "laneInv s"
  shows "laneInv (laneStep c s)"
proof -
  obtain a r1 n1 where claim: "claimLane (hash c) (reservedLanes s) (nextLane s) = (a, r1, n1)"
    by (cases "claimLane (hash c) (reservedLanes s) (nextLane s)")
  obtain r2 n2 where res: "reserveParents a (parents c) (r1, n1) = (r2, n2)"
    by (cases "reserveParents a (parents c) (r1, n1)")
  have ok0: "reservedOk (reservedLanes s) (nextLane s)"
    using assms by (simp add: laneInv_def)
  from claimLane_ok [OF ok0 claim]
  have ok1: "reservedOk r1 n1" "a < n1" "a \<notin> snd ` set r1" "nextLane s \<le> n1"
    by simp_all
  from reserveParents_ok [OF ok1(1-3) res]
  have ok2: "reservedOk r2 n2" "n1 \<le> n2"
    by simp_all
  have step: "laneStep c s = \<lparr>commitLanes = AList.update (hash c) a (commitLanes s),
      reservedLanes = r2, nextLane = n2\<rparr>"
    by (simp add: laneStep_def claim res)
  have "\<forall>v \<in> snd ` set (AList.update (hash c) a (commitLanes s)). v < n2"
  proof
    fix v assume "v \<in> snd ` set (AList.update (hash c) a (commitLanes s))"
    then have "v = a \<or> v \<in> snd ` set (commitLanes s)"
      using update_values [of "hash c" a "commitLanes s"] by auto
    then show "v < n2"
    proof
      assume "v = a"
      with ok1(2) ok2(2) show ?thesis by simp
    next
      assume "v \<in> snd ` set (commitLanes s)"
      with assms have "v < nextLane s" by (auto simp: laneInv_def)
      with ok1(4) ok2(2) show ?thesis by simp
    qed
  qed
  with ok2(1) show ?thesis by (simp add: laneInv_def step)
qed

lemma lanesFrom_inv: "laneInv s \<Longrightarrow> laneInv (lanesFrom s cs)"
  by (induction cs arbitrary: s) (simp_all add: lanesFrom_def laneStep_inv)

lemma initialLanes_inv: "laneInv initialLanes"
  by (simp add: laneInv_def reservedOk_def initialLanes_def)

lemma reservedOk_injective:
  assumes "reservedOk r n" and "map_of r h1 = Some l" and "map_of r h2 = Some l"
  shows "h1 = h2"
proof -
  have "(h1, l) \<in> set r" "(h2, l) \<in> set r"
    using assms(2,3) by (auto dest: map_of_SomeD)
  moreover have "inj_on snd (set r)"
    using assms(1) by (simp add: reservedOk_def distinct_map)
  ultimately have "(h1, l) = (h2, l)"
    using inj_onD [of snd "set r" "(h1, l)" "(h2, l)"] by simp
  then show ?thesis by simp
qed

text \<open>
  C3. On the list C1(parents C2), C2(parents C3, C4), C3(parents C5), C4(parents C5),
  C5(no parents) the allocator returns the map C1:0, C2:0, C3:0, C4:1, C5:0, whatever
  the other fields of the five commits hold.
\<close>

theorem calculateLanes_scenario:
  "calculateLanes
     [\<lparr>hash = ''C1'', shortHash = s1, message = m1, date = d1, author = a1,
        parents = [''C2''], refs = r1\<rparr>,
      \<lparr>hash = ''C2'', shortHash = s2, message = m2, date = d2, author = a2,
        parents = [''C3'', ''C4''], refs = r2\<rparr>,
      \<lparr>hash = ''C3'', shortHash = s3, message = m3, date = d3, author = a3,
        parents = [''C5''], refs = r3\<rparr>,
      \<lparr>hash = ''C4'', shortHash = s4, message = m4, date = d4, author = a4,
        parents = [''C5''], refs = r4\<rparr>,
      \<lparr>hash = ''C5'', shortHash = s5, message = m5, date = d5, author = a5,
        parents = [], refs = r5\<rparr>]
   = [(''C1'', 0), (''C2'', 0), (''C3'', 0), (''C4'', 1), (''C5'', 0)]"
  by (simp add: lane_defs)

text \<open>
  C9. After every commit of the forward pass, that is in the state reached on any
  prefix of any commit list, no two hashes are reserved the same lane, every reserved
  lane lies below \<open>nextLane\<close>, and so does every lane assigned so far.
\<close>

theorem reservations_injective_and_bounded:
  "s = lanesFrom initialLanes (take k commits) \<Longrightarrow>
     (\<forall>h1 h2 l. map_of (reservedLanes s) h1 = Some l \<and> map_of (reservedLanes s) h2 = Some l
        \<longrightarrow> h1 = h2)
   \<and> (\<forall>h l. map_of (reservedLanes s) h = Some l \<longrightarrow> l < nextLane s)
   \<and> (\<forall>h l. map_of (commitLanes s) h = Some l \<longrightarrow> l < nextLane s)"
proof -
  assume s: "s = lanesFrom initialLanes (take k commits)"
  have inv: "laneInv s"
    unfolding s using initialLanes_inv by (rule lanesFrom_inv)
  then have ok: "reservedOk (reservedLanes s) (nextLane s)"
    by (simp add: laneInv_def)
  have "\<forall>h1 h2 l. map_of (reservedLanes s) h1 = Some l \<and> map_of (reservedLanes s) h2 = Some l
        \<longrightarrow> h1 = h2"
    using reservedOk_injective [OF ok] by blast
  moreover have "\<forall>h l. map_of (reservedLanes s) h = Some l \<longrightarrow> l < nextLane s"
    using ok by (force simp: reservedOk_def dest: map_of_SomeD)
  moreover have "\<forall>h l. map_of (commitLanes s) h = Some l \<longrightarrow> l < nextLane s"
    using inv by (force simp: laneInv_def dest: map_of_SomeD)
  ultimately show ?thesis by blast
qed

lemma scenario_after_two:
  "lanesFrom initialLanes (take 2 scenario)
     = \<lparr>commitLanes = [(''C1'', 0), (''C2'', 0)],
        reservedLanes = [(''C3'', 0), (''C4'', 1)], nextLane = 2\<rparr>"
  by (simp add: lane_defs scenario_def mkCommit_def numeral_2_eq_2)

theorem reservations_injective_and_bounded_witness:
  "map_of (reservedLanes (lanesFrom initialLanes (take 2 scenario))) ''C4'' = Some 1
   \<and> map_of (commitLanes (lanesFrom initialLanes (take 2 scenario))) ''C2'' = Some 0
   \<and> (1::nat) < nextLane (lanesFrom initialLanes (take 2 scenario))
   \<and> (0::nat) < nextLane (lanesFrom initialLanes (take 2 scenario))"
proof -
  let ?s = "lanesFrom initialLanes (take 2 scenario)"
  have r: "map_of (reservedLanes ?s) ''C4'' = Some 1"
    by (simp add: scenario_after_two)
  have c: "map_of (commitLanes ?s) ''C2'' = Some 0"
    by (simp add: scenario_after_two)
  from reservations_injective_and_bounded [of ?s 2 scenario, OF refl] r c
  show ?thesis by blast
qed

lemma claimLane_reserved:
  "\<exists>a n1. claimLane h r n = (a, AList.delete h r, n1)"
proof (cases "map_of r h")
  case None
  then have "h \<notin> fst ` set r"
    by (simp add: map_of_eq_None_iff)
  then have "AList.delete h r = r"
    by simp
  with None show ?thesis by (simp add: claimLane_def)
next
  case (Some l)
  then show ?thesis by (simp add: claimLane_def)
qed

lemma has_delete: "\<not> has r p \<Longrightarrow> \<not> has (AList.delete h r) p"
  by (auto simp: has_iff delete_filter)

text \<open>
  C4. A parent beyond the first that has no reservation is appended to the reservation
  map with the smallest lane that is not a value of the map, and \<open>nextLane\<close> becomes
  at least that lane plus one. Hence a commit with two distinct parents, neither of them
  reserved, adds exactly two reservations: the first parent with the commit's own lane
  and the second parent with a lane that differs from it and from every lane still
  reserved, and that lies below the new \<open>nextLane\<close>.
\<close>

theorem merge_reserves_new_lane:
  "(\<not> has reserved p \<longrightarrow>
      (\<exists>l. reserveExtra p (reserved, next) = (reserved @ [(p, l)], max next (l + 1))
         \<and> l \<notin> snd ` set reserved \<and> (\<forall>m<l. m \<in> snd ` set reserved)))
   \<and> (parents c = [p1, p2] \<and> p1 \<noteq> p2
        \<and> \<not> has (reservedLanes s) p1 \<and> \<not> has (reservedLanes s) p2 \<longrightarrow>
      (\<exists>a l. reservedLanes (laneStep c s)
                = AList.delete (hash c) (reservedLanes s) @ [(p1, a), (p2, l)]
         \<and> map_of (commitLanes (laneStep c s)) (hash c) = Some a
         \<and> l \<noteq> a \<and> l \<notin> snd ` set (AList.delete (hash c) (reservedLanes s))
         \<and> l < nextLane (laneStep c s)))"
proof (intro conjI impI)
  assume absent: "\<not> has reserved p"
  let ?l = "scanFreeLane (map snd reserved) 0"
  have "reserveExtra p (reserved, next) = (reserved @ [(p, ?l)], max next (?l + 1))"
    using absent by (simp add: reserveExtra_absent)
  moreover have "?l \<notin> snd ` set reserved"
    using scanFreeLane_notin [of "map snd reserved" 0] by simp
  moreover have "\<forall>m<?l. m \<in> snd ` set reserved"
    using scanFreeLane_below [of 0 _ "map snd reserved"] by simp
  ultimately show "\<exists>l. reserveExtra p (reserved, next) = (reserved @ [(p, l)], max next (l + 1))
         \<and> l \<notin> snd ` set reserved \<and> (\<forall>m<l. m \<in> snd ` set reserved)"
    by blast
next
  assume hyp: "parents c = [p1, p2] \<and> p1 \<noteq> p2
        \<and> \<not> has (reservedLanes s) p1 \<and> \<not> has (reservedLanes s) p2"
  let ?r1 = "AList.delete (hash c) (reservedLanes s)"
  obtain a n1 where claim: "claimLane (hash c) (reservedLanes s) (nextLane s) = (a, ?r1, n1)"
    using claimLane_reserved by blast
  have no1: "\<not> has ?r1 p1" and no2: "\<not> has ?r1 p2"
    using hyp by (simp_all add: has_delete)
  have first: "reserveFirst p1 a ?r1 = ?r1 @ [(p1, a)]"
    using no1 by (simp add: reserveFirst_def has_iff update_absent)
  let ?r2 = "?r1 @ [(p1, a)]"
  let ?l = "scanFreeLane (map snd ?r2) 0"
  have no2': "\<not> has ?r2 p2"
    using no2 hyp by (auto simp: has_iff)
  have res: "reserveParents a (parents c) (?r1, n1) = (?r2 @ [(p2, ?l)], max n1 (Suc ?l))"
    using hyp first reserveExtra_absent [OF no2', of n1] by (simp add: reserveParents_def)
  have step: "laneStep c s = \<lparr>commitLanes = AList.update (hash c) a (commitLanes s),
      reservedLanes = ?r2 @ [(p2, ?l)], nextLane = max n1 (Suc ?l)\<rparr>"
    by (simp add: laneStep_def claim res)
  have free: "?l \<notin> set (map snd ?r2)"
    by (rule scanFreeLane_notin)
  have "reservedLanes (laneStep c s) = ?r1 @ [(p1, a), (p2, ?l)]"
    by (simp add: step)
  moreover have "map_of (commitLanes (laneStep c s)) (hash c) = Some a"
    by (simp add: step update_conv')
  moreover have "?l \<noteq> a" and "?l \<notin> snd ` set ?r1"
    using free by auto
  moreover have "?l < nextLane (laneStep c s)"
    by (simp add: step)
  ultimately show "\<exists>a l. reservedLanes (laneStep c s)
                = AList.delete (hash c) (reservedLanes s) @ [(p1, a), (p2, l)]
         \<and> map_of (commitLanes (laneStep c s)) (hash c) = Some a
         \<and> l \<noteq> a \<and> l \<notin> snd ` set (AList.delete (hash c) (reservedLanes s))
         \<and> l < nextLane (laneStep c s)"
    by blast
qed

theorem merge_reserves_new_lane_witness:
  "reserveExtra ''C4'' ([(''C3'', 0)], 1) = ([(''C3'', 0), (''C4'', 1)], 2)
   \<and> reservedLanes (laneStep (mkCommit ''C2'' [''C3'', ''C4''])
        \<lparr>commitLanes = [(''C1'', 0)], reservedLanes = [(''C2'', 0)], nextLane = 1\<rparr>)
      = [(''C3'', 0), (''C4'', 1)]"
  using merge_reserves_new_lane [of "[(''C3'', 0)]" "''C4''" 1
      "mkCommit ''C2'' [''C3'', ''C4'']" "''C3''" "''C4''"
      "\<lparr>commitLanes = [(''C1'', 0)], reservedLanes = [(''C2'', 0)], nextLane = 1\<rparr>"]
  by (simp add: lane_defs mkCommit_def)

lemma laneStep_commitLanes:
  "\<exists>a. commitLanes (laneStep c s) = AList.update (hash c) a (commitLanes s)"
proof -
  obtain a r1 n1 where claim: "claimLane (hash c) (reservedLanes s) (nextLane s) = (a, r1, n1)"
    by (cases "claimLane (hash c) (reservedLanes s) (nextLane s)")
  obtain r2 n2 where res: "reserveParents a (parents c) (r1, n1) = (r2, n2)"
    by (cases "reserveParents a (parents c) (r1, n1)")
  have "commitLanes (laneStep c s) = AList.update (hash c) a (commitLanes s)"
    by (simp add: laneStep_def claim res)
  then show ?thesis ..
qed

lemma laneStep_keeps:
  "h \<noteq> hash c \<Longrightarrow> map_of (commitLanes (laneStep c s)) h = map_of (commitLanes s) h"
  using laneStep_commitLanes [of c s] by (auto simp: update_conv')

lemma lanesFrom_keeps:
  "h \<notin> hash ` set cs \<Longrightarrow> map_of (commitLanes (lanesFrom s cs)) h = map_of (commitLanes s) h"
proof (induction cs arbitrary: s)
  case Nil
  then show ?case by (simp add: lanesFrom_def)
next
  case (Cons c cs)
  then have "map_of (commitLanes (lanesFrom (laneStep c s) cs)) h
      = map_of (commitLanes (laneStep c s)) h"
    by simp
  also have "\<dots> = map_of (commitLanes s) h"
    using Cons.prems by (simp add: laneStep_keeps)
  finally show ?case by (simp add: lanesFrom_def)
qed

lemma first_step: "map_of (commitLanes (laneStep c initialLanes)) (hash c) = Some 0"
proof -
  have claim: "claimLane (hash c) (reservedLanes initialLanes) (nextLane initialLanes)
      = (0, [], Suc 0)"
    by (simp add: claimLane_def initialLanes_def)
  obtain r2 n2 where res: "reserveParents 0 (parents c) ([], Suc 0) = (r2, n2)"
    by (cases "reserveParents 0 (parents c) ([], Suc 0)")
  have "commitLanes (laneStep c initialLanes) = AList.update (hash c) 0 []"
    by (simp add: laneStep_def claim res) (simp add: initialLanes_def)
  then show ?thesis by simp
qed

text \<open>
  C10. The first commit of a list is assigned lane 0 whatever its parents and refs are:
  the map holds lane 0 for its hash once the first commit is processed, and the returned
  map still does when no later commit of the list carries the same hash (a later commit
  with the same hash would overwrite the entry).
\<close>

theorem first_commit_lane_zero:
  "map_of (commitLanes (lanesFrom initialLanes [c])) (hash c) = Some 0
   \<and> (hash c \<notin> hash ` set cs \<longrightarrow> map_of (calculateLanes (c # cs)) (hash c) = Some 0)"
proof (intro conjI impI)
  show "map_of (commitLanes (lanesFrom initialLanes [c])) (hash c) = Some 0"
    by (simp add: lanesFrom_def first_step)
next
  assume "hash c \<notin> hash ` set cs"
  then have "map_of (commitLanes (lanesFrom (laneStep c initialLanes) cs)) (hash c)
      = map_of (commitLanes (laneStep c initialLanes)) (hash c)"
    by (rule lanesFrom_keeps)
  then show "map_of (calculateLanes (c # cs)) (hash c) = Some 0"
    by (simp add: calculateLanes_def lanesFrom_def first_step)
qed


theorem first_commit_lane_zero_witness:
  "map_of (calculateLanes scenario) ''C1'' = Some 0"
  using first_commit_lane_zero [of "mkCommit ''C1'' [''C2'']" "tl scenario"]
  by (simp add: scenario_def mkCommit_def)


lemma chain_claim:
  assumes "(r = [(h, 0)] \<and> n = 1) \<or> (r = [] \<and> n = 0)"
  shows "claimLane h r n = (0, [], 1)"
  using assms by (auto simp: claimLane_def)

lemma chain_step:
  assumes "isChain (c # cs)" and "chainState s (c # cs)"
  shows "chainState (laneStep c s) cs
     \<and> commitLanes (laneStep c s) = AList.update (hash c) 0 (commitLanes s)"
proof -
  have claim: "claimLane (hash c) (reservedLanes s) (nextLane s) = (0, [], 1)"
    using assms(2) by (intro chain_claim) (simp add: chainState_def)
  have vals: "snd ` set (AList.update (hash c) 0 (commitLanes s)) \<subseteq> {0}"
    using update_values [of "hash c" 0 "commitLanes s"] assms(2)
    by (auto simp: chainState_def)
  show ?thesis
  proof (cases cs)
    case Nil
    with assms(1) have "parents c = []" by simp
    then have "laneStep c s = \<lparr>commitLanes = AList.update (hash c) 0 (commitLanes s),
        reservedLanes = [], nextLane = 1\<rparr>"
      by (simp add: laneStep_def claim reserveParents_def)
    with vals Nil show ?thesis by (simp add: chainState_def)
  next
    case (Cons d ds)
    with assms(1) have "parents c = [hash d]" by simp
    then have "laneStep c s = \<lparr>commitLanes = AList.update (hash c) 0 (commitLanes s),
        reservedLanes = [(hash d, 0)], nextLane = 1\<rparr>"
      by (simp add: laneStep_def claim reserveParents_def reserveFirst_def has_def)
    with vals Cons show ?thesis by (simp add: chainState_def)
  qed
qed

lemma isChain_tail: "isChain (c # cs) \<Longrightarrow> isChain cs"
  by (cases cs) simp_all

lemma chain_lanes:
  "isChain cs \<Longrightarrow> chainState s cs \<Longrightarrow>
     snd ` set (commitLanes (lanesFrom s cs)) \<subseteq> {0}
     \<and> hash ` set cs \<subseteq> fst ` set (commitLanes (lanesFrom s cs))"
proof (induction cs arbitrary: s)
  case Nil
  then show ?case by (simp add: lanesFrom_def chainState_def)
next
  case (Cons c cs)
  from chain_step [OF Cons.prems]
  have st: "chainState (laneStep c s) cs"
    and cl: "commitLanes (laneStep c s) = AList.update (hash c) 0 (commitLanes s)"
    by simp_all
  have ih: "snd ` set (commitLanes (lanesFrom (laneStep c s) cs)) \<subseteq> {0}
     \<and> hash ` set cs \<subseteq> fst ` set (commitLanes (lanesFrom (laneStep c s) cs))"
    using isChain_tail [OF Cons.prems(1)] st by (rule Cons.IH)
  have "map_of (commitLanes (laneStep c s)) (hash c) = Some 0"
    by (simp add: cl update_conv')
  have "hash c \<in> fst ` set (commitLanes (lanesFrom (laneStep c s) cs))"
  proof (cases "hash c \<in> hash ` set cs")
    case True
    with ih show ?thesis by blast
  next
    case False
    then have "map_of (commitLanes (lanesFrom (laneStep c s) cs)) (hash c)
        = map_of (commitLanes (laneStep c s)) (hash c)"
      by (rule lanesFrom_keeps)
    then have "map_of (commitLanes (lanesFrom (laneStep c s) cs)) (hash c) = Some 0"
      by (simp add: cl update_conv')
    then have "(hash c, 0) \<in> set (commitLanes (lanesFrom (laneStep c s) cs))"
      by (rule map_of_SomeD)
    then show ?thesis by force
  qed
  with ih show ?case by (simp add: lanesFrom_def)
qed

text \<open>
  C5. On a list that is one parent chain (every commit has the next commit of the list
  as its only parent, the last commit has no parent) the allocator gives lane 0 to
  every commit.
\<close>

theorem linear_chain_single_lane:
  "isChain commits \<Longrightarrow> c \<in> set commits \<Longrightarrow> map_of (calculateLanes commits) (hash c) = Some 0"
proof -
  assume chain: "isChain commits" and c: "c \<in> set commits"
  have "chainState initialLanes commits"
    by (simp add: chainState_def initialLanes_def split: list.splits)
  with chain have "snd ` set (commitLanes (lanesFrom initialLanes commits)) \<subseteq> {0}
     \<and> hash ` set commits \<subseteq> fst ` set (commitLanes (lanesFrom initialLanes commits))"
    by (rule chain_lanes)
  then have res: "snd ` set (calculateLanes commits) \<subseteq> {0}"
      "hash ` set commits \<subseteq> fst ` set (calculateLanes commits)"
    by (simp_all add: calculateLanes_def)
  from res(2) c have "hash c \<in> fst ` set (calculateLanes commits)"
    by blast
  then obtain v where v: "map_of (calculateLanes commits) (hash c) = Some v"
    by (cases "map_of (calculateLanes commits) (hash c)") (simp_all add: map_of_eq_None_iff)
  then have "(hash c, v) \<in> set (calculateLanes commits)"
    by (rule map_of_SomeD)
  with res(1) have "v = 0" by force
  with v show ?thesis by simp
qed


theorem linear_chain_single_lane_witness:
  "isChain chain3 \<and> mkCommit ''b'' [''c''] \<in> set chain3
   \<and> map_of (calculateLanes chain3) ''b'' = Some 0"
proof -
  have h: "isChain chain3" and m: "mkCommit ''b'' [''c''] \<in> set chain3"
    by (simp_all add: chain3_def mkCommit_def)
  from linear_chain_single_lane [OF h m] h m show ?thesis
    by (simp add: mkCommit_def)
qed

section \<open>Properties of the selection and of the range actions\<close>

lemma single_parent_iff:
  "(length ps = 1 \<and> h \<in> set ps) \<longleftrightarrow> (length ps = 1 \<and> hd ps = h)"
  by (cases ps) auto

lemma adjacent_pairs_Cons:
  "(\<forall>k. Suc k < length (i # j # rest) \<longrightarrow> P ((i # j # rest) ! k) ((i # j # rest) ! Suc k))
     \<longleftrightarrow> (P i j \<and> (\<forall>k. Suc k < length (j # rest) \<longrightarrow> P ((j # rest) ! k) ((j # rest) ! Suc k)))"
  (is "?L \<longleftrightarrow> ?R")
proof
  assume l: ?L
  have "P i j" using l [rule_format, of 0] by simp
  moreover have "\<forall>k. Suc k < length (j # rest) \<longrightarrow> P ((j # rest) ! k) ((j # rest) ! Suc k)"
  proof (intro allI impI)
    fix k assume "Suc k < length (j # rest)"
    with l [rule_format, of "Suc k"] show "P ((j # rest) ! k) ((j # rest) ! Suc k)"
      by simp
  qed
  ultimately show ?R by simp
next
  assume r: ?R
  show ?L
  proof (intro allI impI)
    fix k assume k: "Suc k < length (i # j # rest)"
    show "P ((i # j # rest) ! k) ((i # j # rest) ! Suc k)"
    proof (cases k)
      case 0
      with r show ?thesis by simp
    next
      case (Suc k')
      with k r show ?thesis by simp
    qed
  qed
qed

lemma consecutive_in_range:
  "\<forall>i \<in> set idx. i < length commits \<Longrightarrow>
     areCommitsConsecutive commits idx =
       Inr (\<forall>k. Suc k < length idx \<longrightarrow>
              length (parents (commits ! (idx ! k))) = 1 \<and>
              hd (parents (commits ! (idx ! k))) = hash (commits ! (idx ! Suc k)))"
proof (induction commits idx rule: areCommitsConsecutive.induct)
  case (1 commits i j rest)
  let ?P = "\<lambda>a b. length (parents (commits ! a)) = 1 \<and> hd (parents (commits ! a)) = hash (commits ! b)"
  let ?Q = "\<forall>k. Suc k < length (i # j # rest) \<longrightarrow> ?P ((i # j # rest) ! k) ((i # j # rest) ! Suc k)"
  let ?R = "\<forall>k. Suc k < length (j # rest) \<longrightarrow> ?P ((j # rest) ! k) ((j # rest) ! Suc k)"
  have split: "?Q \<longleftrightarrow> (?P i j \<and> ?R)"
    by (rule adjacent_pairs_Cons)
  have rng: "i < length commits" "j < length commits" "\<forall>i \<in> set (j # rest). i < length commits"
    using "1.prems" by simp_all
  have "areCommitsConsecutive commits (i # j # rest) = Inr ?Q"
  proof (cases "?P i j")
    case True
    then have one: "length (parents (commits ! i)) = 1"
      and mem: "hash (commits ! j) \<in> set (parents (commits ! i))"
      using single_parent_iff [of "parents (commits ! i)" "hash (commits ! j)"] by simp_all
    have "areCommitsConsecutive commits (j # rest) = Inr ?R"
      using rng one mem by (intro "1.IH") simp_all
    moreover have "areCommitsConsecutive commits (i # j # rest)
        = areCommitsConsecutive commits (j # rest)"
      using rng one mem by simp
    moreover have "?Q = ?R"
      unfolding split using True by blast
    ultimately show ?thesis by (simp only:)
  next
    case False
    then have "length (parents (commits ! i)) \<noteq> 1 \<or> hash (commits ! j) \<notin> set (parents (commits ! i))"
      using single_parent_iff [of "parents (commits ! i)" "hash (commits ! j)"] by blast
    with rng have "areCommitsConsecutive commits (i # j # rest) = Inr False"
      by auto
    moreover have "?Q = False"
      unfolding split using False by blast
    ultimately show ?thesis by (simp only:)
  qed
  then show ?case .
qed simp_all

text \<open>
  C1. For row indices inside the commit list, \<open>areCommitsConsecutive\<close> answers true
  exactly when every adjacent pair of the index sequence (newer at position \<open>k\<close>,
  older at position \<open>k + 1\<close>) has a newer commit with exactly one parent, that parent
  being the hash of the older commit. On the empty and on every one-element sequence it
  answers true.
\<close>

theorem areCommitsConsecutive_iff:
  "((\<forall>i \<in> set sortedIndices. i < length commits) \<longrightarrow>
     areCommitsConsecutive commits sortedIndices =
       Inr (\<forall>k. Suc k < length sortedIndices \<longrightarrow>
              length (parents (commits ! (sortedIndices ! k))) = 1 \<and>
              hd (parents (commits ! (sortedIndices ! k)))
                = hash (commits ! (sortedIndices ! Suc k))))
   \<and> areCommitsConsecutive commits [] = Inr True
   \<and> areCommitsConsecutive commits [i] = Inr True"
  using consecutive_in_range [of sortedIndices commits] by simp

theorem areCommitsConsecutive_iff_witness:
  "areCommitsConsecutive chain3 [0, 1, 2] = Inr True
   \<and> areCommitsConsecutive scenario [1, 2] = Inr False"
  using areCommitsConsecutive_iff [of "[0, 1, 2]" chain3]
    areCommitsConsecutive_iff [of "[1, 2]" scenario]
  by (simp add: chain3_def scenario_def mkCommit_def nth_Cons' all_conj_distrib)

lemma hashesAt_in_range:
  "\<forall>i \<in> set idx. i < length commits \<Longrightarrow>
     hashesAt commits idx = Inr (map (\<lambda>i. hash (commits ! i)) idx)"
  by (induction idx) simp_all

lemma last_sorted_Max:
  fixes xs :: "nat list"
  shows "sorted xs \<Longrightarrow> xs \<noteq> [] \<Longrightarrow> last xs = Max (set xs)"
proof (induction xs)
  case Nil
  then show ?case by simp
next
  case (Cons x xs)
  show ?case
  proof (cases "xs = []")
    case True
    then show ?thesis by simp
  next
    case False
    with Cons have ih: "last xs = Max (set xs)" by simp
    have "last xs \<in> set xs" using False by simp
    with Cons.prems(1) have "x \<le> last xs" by simp
    with ih False show ?thesis by (simp add: max_def)
  qed
qed

text \<open>
  C2, as amended. A click on an item of the range menu, for a non-empty selection of
  rows of the list, posts the action with the hashes of the selected rows in ascending
  row order (newest first) and with \<open>parents[0]\<close> of the oldest selected commit, the
  row of the largest index: its first parent if it has one, nothing if it has none. The
  base is that commit's single parent whenever it has exactly one parent; that the range
  is consecutive says nothing about the parents of its oldest commit.
\<close>

theorem rangeMenuClick_event:
  "selectedIndices \<noteq> [] \<Longrightarrow> distinct selectedIndices \<Longrightarrow>
   \<forall>i \<in> set selectedIndices. i < length commits \<Longrightarrow>
     rangeMenuClick commits selectedIndices (Some action) =
       Inr (Some \<lparr>command = action,
                   hashes = map (\<lambda>i. hash (commits ! i))
                              (sorted_list_of_set (set selectedIndices)),
                   parentHash = (case parents (commits ! Max (set selectedIndices)) of
                                   [] \<Rightarrow> None
                                 | p # _ \<Rightarrow> Some p)\<rparr>)
     \<and> (\<forall>p. parents (commits ! Max (set selectedIndices)) = [p] \<longrightarrow>
           (\<exists>e. rangeMenuClick commits selectedIndices (Some action) = Inr (Some e)
                \<and> parentHash e = Some p))"
proof -
  assume ne: "selectedIndices \<noteq> []" and d: "distinct selectedIndices"
    and rng: "\<forall>i \<in> set selectedIndices. i < length commits"
  let ?sorted = "sort selectedIndices"
  have sl: "sorted_list_of_set (set selectedIndices) = ?sorted"
    using d by (simp add: sorted_list_of_set_sort_remdups distinct_remdups_id)
  have ne': "?sorted \<noteq> []"
    using ne by (metis length_sort length_0_conv)
  have "last ?sorted = Max (set ?sorted)"
    using ne' by (intro last_sorted_Max) simp_all
  then have oldest: "last ?sorted = Max (set selectedIndices)"
    by simp
  have "Max (set selectedIndices) \<in> set selectedIndices"
    using ne by (intro Max_in) simp_all
  with rng have inr: "Max (set selectedIndices) < length commits"
    by blast
  have hs: "hashesAt commits ?sorted = Inr (map (\<lambda>i. hash (commits ! i)) ?sorted)"
    using rng by (intro hashesAt_in_range) simp
  have ev: "rangeMenuClick commits selectedIndices (Some action) =
       Inr (Some \<lparr>command = action,
                   hashes = map (\<lambda>i. hash (commits ! i))
                              (sorted_list_of_set (set selectedIndices)),
                   parentHash = (case parents (commits ! Max (set selectedIndices)) of
                                   [] \<Rightarrow> None
                                 | p # _ \<Rightarrow> Some p)\<rparr>)"
    using ne' inr by (simp add: rangeMenuClick_def hs oldest sl)
  then show ?thesis by simp
qed

theorem rangeMenuClick_event_witness:
  "rangeMenuClick scenario [2, 0, 1] (Some ''squashCommits'')
     = Inr (Some \<lparr>command = ''squashCommits'', hashes = [''C1'', ''C2'', ''C3''],
                 parentHash = Some ''C5''\<rparr>)"
proof -
  have a: "[2, 0, 1::nat] \<noteq> []" and b: "distinct [2, 0, 1::nat]"
    and c: "\<forall>i \<in> set [2, 0, 1::nat]. i < length scenario"
    by (simp_all add: scenario_def)
  have m: "Max (set [2, 0, 1::nat]) = 2"
    by simp
  have s: "sorted_list_of_set (set [2, 0, 1::nat]) = [0, 1, 2]"
    by (simp add: sorted_list_of_set_sort_remdups)
  from rangeMenuClick_event [OF a b c, of "''squashCommits''"] show ?thesis
    unfolding m s by (simp add: scenario_def mkCommit_def)
qed

text \<open>
  C2 as stated fails: the two-commit history \<open>a\<close> (parent \<open>b\<close>), \<open>b\<close> (a root) is
  a consecutive range, and the event posted for it carries no base, since its oldest
  commit has no parent.
\<close>

theorem range_base_counterexample:
  "areCommitsConsecutive [mkCommit ''a'' [''b''], mkCommit ''b'' []] (sort [0, 1]) = Inr True
   \<and> rangeMenuClick [mkCommit ''a'' [''b''], mkCommit ''b'' []] [0, 1] (Some ''squashCommits'')
       = Inr (Some \<lparr>command = ''squashCommits'', hashes = [''a'', ''b''], parentHash = None\<rparr>)"
  by (simp add: rangeMenuClick_def mkCommit_def)

section \<open>Properties of the renderer\<close>

lemma calculateLanes_nonempty: "commits \<noteq> [] \<Longrightarrow> calculateLanes commits \<noteq> []"
proof (induction commits rule: rev_induct)
  case Nil
  then show ?case by simp
next
  case (snoc c cs)
  obtain a where "commitLanes (laneStep c (lanesFrom initialLanes cs))
      = AList.update (hash c) a (commitLanes (lanesFrom initialLanes cs))"
    using laneStep_commitLanes by blast
  then show ?case by (simp add: calculateLanes_def lanesFrom_def)
qed

lemma canvasWidth_Max:
  "lanes \<noteq> [] \<Longrightarrow> canvasWidth lanes = Some ((Max (snd ` set lanes) + 1) * LANE_WIDTH + 12)"
proof -
  assume "lanes \<noteq> []"
  then obtain e es where l: "lanes = e # es" by (cases lanes) auto
  have "fold max (map snd es) (snd e) = Max (set (snd e # map snd es))"
    by (rule Max.set_eq_fold [symmetric])
  then show ?thesis by (simp add: canvasWidth_def l)
qed

lemma drawCanvases_widths:
  "\<forall>i \<in> set canvases. i < length commits \<Longrightarrow>
     \<exists>ss. drawCanvases commits lanes w canvases = Inr ss \<and> map rowIndex ss = canvases
        \<and> (\<forall>s \<in> set ss. styleWidth s = w)"
proof (induction canvases)
  case Nil
  then show ?case by simp
next
  case (Cons i rest)
  then obtain ss where ss: "drawCanvases commits lanes w rest = Inr ss" "map rowIndex ss = rest"
      "\<forall>s \<in> set ss. styleWidth s = w"
    by auto
  have i: "i < length commits" using Cons.prems by simp
  then show ?case by (simp add: drawCanvas_def ss)
qed

text \<open>
  C8, as amended. For a non-empty commit list \<open>drawGraph\<close> computes one width from the
  lane map, (largest lane + 1) * \<open>LANE_WIDTH\<close> + 12, and every canvas of a row of the
  list gets that width.
\<close>

theorem canvas_width_uniform:
  "commits \<noteq> [] \<Longrightarrow> \<forall>i \<in> set canvases. i < length commits \<Longrightarrow>
     canvasWidth (calculateLanes commits)
       = Some ((Max (snd ` set (calculateLanes commits)) + 1) * LANE_WIDTH + 12)
     \<and> (\<exists>ss. drawGraph commits canvases = Inr ss \<and> map rowIndex ss = canvases
           \<and> (\<forall>s \<in> set ss. styleWidth s = canvasWidth (calculateLanes commits)))"
proof -
  assume ne: "commits \<noteq> []" and rng: "\<forall>i \<in> set canvases. i < length commits"
  have "calculateLanes commits \<noteq> []"
    using ne by (rule calculateLanes_nonempty)
  then have "canvasWidth (calculateLanes commits)
       = Some ((Max (snd ` set (calculateLanes commits)) + 1) * LANE_WIDTH + 12)"
    by (rule canvasWidth_Max)
  moreover have "\<exists>ss. drawGraph commits canvases = Inr ss \<and> map rowIndex ss = canvases
           \<and> (\<forall>s \<in> set ss. styleWidth s = canvasWidth (calculateLanes commits))"
    using drawCanvases_widths [OF rng] by (simp add: drawGraph_def Let_def)
  ultimately show ?thesis by simp
qed

lemma scenario_lanes:
  "calculateLanes scenario = [(''C1'', 0), (''C2'', 0), (''C3'', 0), (''C4'', 1), (''C5'', 0)]"
  by (simp add: lane_defs scenario_def mkCommit_def)

theorem canvas_width_uniform_witness:
  "canvasWidth (calculateLanes scenario) = Some 48
   \<and> (\<exists>ss. drawGraph scenario [0, 1, 2, 3, 4] = Inr ss \<and> map rowIndex ss = [0, 1, 2, 3, 4]
         \<and> list_all (\<lambda>s. styleWidth s = Some 48) ss)"
proof -
  have ne: "scenario \<noteq> []" and rng: "\<forall>i \<in> set [0, 1, 2, 3, 4]. i < length scenario"
    by (simp_all add: scenario_def)
  have m: "Max (snd ` set (calculateLanes scenario)) = 1"
    by (simp add: scenario_lanes)
  have w: "(Max (snd ` set (calculateLanes scenario)) + 1) * LANE_WIDTH + 12 = 48"
    unfolding m by (simp add: LANE_WIDTH_def)
  from canvas_width_uniform [OF ne rng] show ?thesis
    unfolding w list_all_iff by auto
qed

text \<open>
  C8 as stated fails: for a single root commit the largest lane is 0, so
  (largest lane + 1) * \<open>LANE_WIDTH\<close> is 18, and the width computed is 30.
\<close>

theorem canvas_width_counterexample:
  "canvasWidth (calculateLanes [mkCommit ''a'' []]) = Some 30
   \<and> (Max (snd ` set (calculateLanes [mkCommit ''a'' []])) + 1) * LANE_WIDTH = 18"
  by (simp add: lane_defs mkCommit_def canvasWidth_def LANE_WIDTH_def)

lemma findIndexFrom_absent: "h \<notin> hash ` set cs \<Longrightarrow> findIndexFrom i cs h = -1"
  by (induction cs arbitrary: i) auto

lemma findIndex_absent: "h \<notin> hash ` set commits \<Longrightarrow> findIndex commits h = -1"
  by (simp add: findIndex_def findIndexFrom_absent)

lemma findIndexFrom_erase:
  "findIndexFrom i (map (eraseAbsent commits) cs) h = findIndexFrom i cs h"
  by (induction cs arbitrary: i) (simp_all add: eraseAbsent_def)

lemma findIndex_erase: "findIndex (map (eraseAbsent commits) commits) h = findIndex commits h"
  by (simp add: findIndex_def findIndexFrom_erase)

lemma passthroughEdge_absent:
  "p \<notin> hash ` set commits \<Longrightarrow> passthroughEdge commits lanes index lane p = []"
  by (simp add: passthroughEdge_def findIndex_absent)

lemma outgoingEdge_absent:
  "p \<notin> hash ` set commits \<Longrightarrow> outgoingEdge commits lanes index lane p = []"
  by (simp add: outgoingEdge_def findIndex_absent)

lemma concat_map_filter_Nil:
  "(\<And>x. x \<in> set xs \<Longrightarrow> \<not> P x \<Longrightarrow> f x = []) \<Longrightarrow> concat (map f (filter P xs)) = concat (map f xs)"
  by (induction xs) auto

lemma passthroughEdge_erase:
  "passthroughEdge (map (eraseAbsent commits) commits) lanes index lane p
     = passthroughEdge commits lanes index lane p"
  by (simp add: passthroughEdge_def findIndex_erase)

lemma outgoingEdge_erase:
  "outgoingEdge (map (eraseAbsent commits) commits) lanes index lane p
     = outgoingEdge commits lanes index lane p"
  by (simp add: outgoingEdge_def findIndex_erase)

lemma edges_erase:
  "concat (map (passthroughEdge commits lanes index lane) (parents (eraseAbsent commits c)))
     = concat (map (passthroughEdge commits lanes index lane) (parents c))"
  "concat (map (outgoingEdge commits lanes index lane) (parents (eraseAbsent commits c)))
     = concat (map (outgoingEdge commits lanes index lane) (parents c))"
  by (simp_all add: eraseAbsent_def concat_map_filter_Nil passthroughEdge_absent
      outgoingEdge_absent)

lemma passthroughs_erase:
  assumes "index \<le> length commits"
  shows "passthroughs (map (eraseAbsent commits) commits) lanes index lane
     = passthroughs commits lanes index lane"
proof -
  have step: "\<And>i. i \<in> set [0..<index] \<Longrightarrow>
      concat (map (passthroughEdge (map (eraseAbsent commits) commits) lanes index lane)
        (parents (map (eraseAbsent commits) commits ! i)))
      = concat (map (passthroughEdge commits lanes index lane) (parents (commits ! i)))"
  proof -
    fix i assume "i \<in> set [0..<index]"
    with assms have "i < length commits" by simp
    then have "map (eraseAbsent commits) commits ! i = eraseAbsent commits (commits ! i)"
      by simp
    moreover have "passthroughEdge (map (eraseAbsent commits) commits) lanes index lane
        = passthroughEdge commits lanes index lane"
      by (rule ext) (rule passthroughEdge_erase)
    ultimately show "concat (map (passthroughEdge (map (eraseAbsent commits) commits) lanes index lane)
        (parents (map (eraseAbsent commits) commits ! i)))
      = concat (map (passthroughEdge commits lanes index lane) (parents (commits ! i)))"
      by (simp only: edges_erase)
  qed
  show ?thesis
    unfolding passthroughs_def
    by (rule arg_cong [where f = concat], rule map_cong [OF refl], rule step)
qed

lemma mentions_erase:
  "h \<in> hash ` set commits \<Longrightarrow> h \<in> set (parents (eraseAbsent commits c)) \<longleftrightarrow> h \<in> set (parents c)"
  by (auto simp: eraseAbsent_def)

lemma hash_erase: "hash (eraseAbsent commits c) = hash c"
  by (simp add: eraseAbsent_def)

lemma hasIncoming_erase:
  assumes "hash commit \<in> hash ` set commits"
  shows "hasIncoming (map (eraseAbsent commits) commits) index (eraseAbsent commits commit)
     = hasIncoming commits index commit"
  using assms
  by (simp add: hasIncoming_def take_map list_ex_iff hash_erase mentions_erase)

lemma hasOutgoing_erase:
  "hasOutgoing (map (eraseAbsent commits) commits) index (eraseAbsent commits commit)
     = hasOutgoing commits index commit"
proof -
  have "\<And>p. int index < findIndex commits p \<Longrightarrow> p \<in> hash ` set commits"
  proof (rule ccontr)
    fix p assume "int index < findIndex commits p" and "p \<notin> hash ` set commits"
    then show False by (simp add: findIndex_absent)
  qed
  then show ?thesis
    by (auto simp: hasOutgoing_def list_ex_iff findIndex_erase eraseAbsent_def)
qed

lemma incomingCurves_erase:
  assumes "index \<le> length commits" and "hash commit \<in> hash ` set commits"
  shows "incomingCurves (map (eraseAbsent commits) commits) lanes index
       (eraseAbsent commits commit) lane
     = incomingCurves commits lanes index commit lane"
proof -
  have "\<And>i. i \<in> set [0..<index] \<Longrightarrow>
      map (eraseAbsent commits) commits ! i = eraseAbsent commits (commits ! i)"
    using assms(1) by simp
  then show ?thesis
    unfolding incomingCurves_def
    by (intro arg_cong [where f = concat] map_cong refl)
       (simp add: Let_def hash_erase mentions_erase [OF assms(2)])
qed

lemma outgoingCurves_erase:
  "outgoingCurves (map (eraseAbsent commits) commits) lanes index (eraseAbsent commits commit) lane
     = outgoingCurves commits lanes index commit lane"
proof -
  have "outgoingEdge (map (eraseAbsent commits) commits) lanes index lane
        = outgoingEdge commits lanes index lane"
    by (rule ext) (rule outgoingEdge_erase)
  then show ?thesis
    by (simp only: outgoingCurves_def edges_erase)
qed

lemma rowSegments_erase:
  assumes "index \<le> length commits" and "hash commit \<in> hash ` set commits"
  shows "rowSegments (map (eraseAbsent commits) commits) lanes head
       (eraseAbsent commits commit) index
     = rowSegments commits lanes head commit index"
  by (simp add: rowSegments_def ownLane_def hash_erase passthroughs_erase [OF assms(1)]
      hasIncoming_erase [OF assms(2)] hasOutgoing_erase
      incomingCurves_erase [OF assms] outgoingCurves_erase)

text \<open>
  C6. For a parent hash that no commit of the list carries, \<open>findIndex\<close> answers -1,
  the passthrough callback and the outgoing-connector callback paint nothing for it, and
  the test behind the lower half of the row's own lane line is false for it. Painting a
  row of the list raises no error. And a row paints exactly what it would paint if every
  parent hash absent from the list had been removed from the commits beforehand.
\<close>

theorem absent_parent_not_drawn:
  "(p \<notin> hash ` set commits \<longrightarrow>
      findIndex commits p = -1
      \<and> passthroughEdge commits lanes index lane p = []
      \<and> \<not> int index < findIndex commits p
      \<and> outgoingEdge commits lanes index lane p = [])
   \<and> (index \<le> length commits \<longrightarrow>
        GraphCanvas commit index commits lanes width head
          = Inr \<lparr>rowIndex = index, styleWidth = Some width,
                 painted = rowSegments commits lanes head commit index\<rparr>)
   \<and> (index \<le> length commits \<and> hash commit \<in> hash ` set commits \<longrightarrow>
        rowSegments commits lanes head commit index
          = rowSegments (map (eraseAbsent commits) commits) lanes head
              (eraseAbsent commits commit) index)"
  by (simp add: findIndex_absent passthroughEdge_absent outgoingEdge_absent GraphCanvas_def
      rowSegments_erase)

lemmas draw_defs = rowSegments_def passthroughs_def passthroughEdge_def ownLane_def
  hasIncoming_def hasOutgoing_def incomingCurves_def outgoingCurves_def outgoingEdge_def
  findIndex_def GraphCanvas_def

lemma truncated_row1:
  "rowSegments truncated [(''a'', 0), (''b'', 0)] (Some ''a'') (mkCommit ''b'' [''y'']) 1
     = [IncomingHalf (Some 0), Dot (Some 0) False]"
  by (simp add: draw_defs truncated_def mkCommit_def Let_def)

theorem absent_parent_not_drawn_witness:
  "findIndex truncated ''y'' = -1
   \<and> GraphCanvas (mkCommit ''b'' [''y'']) 1 truncated [(''a'', 0), (''b'', 0)] 30 (Some ''a'')
       = Inr \<lparr>rowIndex = 1, styleWidth = Some 30,
               painted = [IncomingHalf (Some 0), Dot (Some 0) False]\<rparr>
   \<and> rowSegments (map (eraseAbsent truncated) truncated) [(''a'', 0), (''b'', 0)] (Some ''a'')
         (eraseAbsent truncated (mkCommit ''b'' [''y''])) 1
       = [IncomingHalf (Some 0), Dot (Some 0) False]"
proof -
  have a: "''y'' \<notin> hash ` set truncated"
    and b: "(1::nat) \<le> length truncated"
    and c: "hash (mkCommit ''b'' [''y'']) \<in> hash ` set truncated"
    by (simp_all add: truncated_def mkCommit_def)
  note t = absent_parent_not_drawn [of "''y''" truncated "[(''a'', 0), (''b'', 0)]" 1 "Some 0"
      "mkCommit ''b'' [''y'']" 30 "Some ''a''"]
  from t a have f: "findIndex truncated ''y'' = -1"
    by blast
  from t b have "GraphCanvas (mkCommit ''b'' [''y'']) 1 truncated [(''a'', 0), (''b'', 0)] 30
        (Some ''a'')
      = Inr \<lparr>rowIndex = 1, styleWidth = Some 30,
              painted = rowSegments truncated [(''a'', 0), (''b'', 0)] (Some ''a'')
                          (mkCommit ''b'' [''y'']) 1\<rparr>"
    by blast
  then have g: "GraphCanvas (mkCommit ''b'' [''y'']) 1 truncated [(''a'', 0), (''b'', 0)] 30
        (Some ''a'')
      = Inr \<lparr>rowIndex = 1, styleWidth = Some 30,
              painted = [IncomingHalf (Some 0), Dot (Some 0) False]\<rparr>"
    by (simp only: truncated_row1)
  from t b c have "rowSegments truncated [(''a'', 0), (''b'', 0)] (Some ''a'')
        (mkCommit ''b'' [''y'']) 1
      = rowSegments (map (eraseAbsent truncated) truncated) [(''a'', 0), (''b'', 0)] (Some ''a'')
          (eraseAbsent truncated (mkCommit ''b'' [''y''])) 1"
    by blast
  then have e: "rowSegments (map (eraseAbsent truncated) truncated) [(''a'', 0), (''b'', 0)]
        (Some ''a'') (eraseAbsent truncated (mkCommit ''b'' [''y''])) 1
      = [IncomingHalf (Some 0), Dot (Some 0) False]"
    by (simp only: truncated_row1)
  from f g e show ?thesis
    by (intro conjI)
qed

end
